theory Spec2Isabelle
  imports Main
begin

section \<open>The certificate LRU cache of certmanager/lru.go\<close>

text \<open>
  The cache of \<^verbatim>\<open>lru.go\<close> is a Go map from host names to entries, a
  \<^verbatim>\<open>container/list\<close> doubly linked list that records recency (front = most recently
  used, back = least recently used), and a capacity \<^verbatim>\<open>maxSize\<close>. Every entry of the
  map holds a pointer to its element of the list, and the code removes and moves elements
  through these pointers. The model keeps the pointers: an element of the list is a pair
  of its address and its \<^verbatim>\<open>Value\<close>, and an entry stores the address of its element.

  Integers. \<^verbatim>\<open>maxSize\<close> is a Go \<^verbatim>\<open>int\<close> and \<^verbatim>\<open>expiresAt\<close> an \<^verbatim>\<open>int64\<close>
  (Unix seconds). The code only stores and compares them (no arithmetic), so they are
  modelled as \<open>int\<close>: no operation on them can overflow.

  Time. \<^verbatim>\<open>time.Now().Unix()\<close> reads the clock; the value read is a parameter of the
  model. \<^verbatim>\<open>Put\<close> receives a \<^verbatim>\<open>time.Time\<close> and stores its \<^verbatim>\<open>Unix()\<close> value; the
  model's \<open>Put\<close> takes that value.

  Locking. Every operation holds the cache's mutex from its first to its last statement,
  so the model is sequential: an operation is a function from the state before to the
  state after.
\<close>

subsection \<open>The list of container/list\<close>

type_synonym addr = nat

text \<open>
  The dynamic value of \<^verbatim>\<open>Element.Value\<close> (Go's \<^verbatim>\<open>any\<close>): a string, or anything else
  (\<^verbatim>\<open>nil\<close> included), for which the type assertion \<^verbatim>\<open>.(string)\<close> panics.
\<close>

datatype anyval = VString string | VOther

type_synonym element = "addr \<times> anyval"

text \<open>A list is the sequence of its elements from front to back.\<close>

type_synonym glist = "element list"

definition list_New :: glist where
  "list_New = []"

definition Len :: "glist \<Rightarrow> nat" where
  "Len l = length l"

text \<open>\<^verbatim>\<open>Back\<close> returns the last element, or \<^verbatim>\<open>nil\<close> (\<open>None\<close>) when the list is empty.\<close>

definition Back :: "glist \<Rightarrow> element option" where
  "Back l = (if l = [] then None else Some (last l))"

text \<open>
  \<^verbatim>\<open>Remove(e)\<close> unlinks \<open>e\<close> when \<open>e\<close> is an element of the list, and does nothing
  otherwise (\<^verbatim>\<open>if e.list == l\<close>).
\<close>

definition Remove :: "addr \<Rightarrow> glist \<Rightarrow> glist" where
  "Remove a l = filter (\<lambda>e. fst e \<noteq> a) l"

text \<open>
  \<^verbatim>\<open>MoveToFront(e)\<close> does nothing when \<open>e\<close> is not an element of the list or is already
  its front (\<^verbatim>\<open>if e.list != l || l.root.next == e\<close>); otherwise it unlinks \<open>e\<close> and
  links it in first.
\<close>

definition MoveToFront :: "addr \<Rightarrow> glist \<Rightarrow> glist" where
  "MoveToFront a l =
     (case find (\<lambda>e. fst e = a) l of
        None \<Rightarrow> l
      | Some e \<Rightarrow> if fst (hd l) = a then l else e # Remove a l)"

text \<open>\<^verbatim>\<open>PushFront(v)\<close> links a newly allocated element, at address \<open>a\<close>, in first.\<close>

definition PushFront :: "addr \<Rightarrow> anyval \<Rightarrow> glist \<Rightarrow> glist" where
  "PushFront a v l = (a, v) # l"

subsection \<open>The cache\<close>

text \<open>A certificate pointer \<^verbatim>\<open>*tls.Certificate\<close> is \<open>None\<close> (\<^verbatim>\<open>nil\<close>) or \<open>Some\<close> certificate.\<close>

record 'c cacheEntry =
  cert :: "'c option"
  expiresAt :: int
  listElement :: addr

text \<open>
  The fields of \<^verbatim>\<open>CertLRUCache\<close> (the field \<^verbatim>\<open>list\<close> is \<open>lst\<close> here), and the next
  address the allocator hands out: every element allocated by \<^verbatim>\<open>PushFront\<close> gets an
  address that no earlier element has. The embedded mutex has no field: see above.
\<close>

record 'c CertLRUCache =
  maxSize :: int
  lst :: glist
  cache :: "string \<rightharpoonup> 'c cacheEntry"
  next_addr :: addr

datatype panic = NilDereference | TypeAssertion

text \<open>
  \<^verbatim>\<open>NewCertLRUCache\<close>: an empty map and an empty list. The goroutine it starts is
  modelled by \<open>sweepTick\<close> below, one call for each tick of the ticker.
\<close>

definition NewCertLRUCache :: "int \<Rightarrow> int \<Rightarrow> 'c CertLRUCache" where
  "NewCertLRUCache maxSize' cleanupInterval =
     \<lparr>maxSize = maxSize', lst = list_New, cache = Map.empty, next_addr = 0\<rparr>"

text \<open>\<^verbatim>\<open>Get\<close>, with the clock reading \<open>now\<close>: the pointer returned and the state after.\<close>

definition Get :: "int \<Rightarrow> string \<Rightarrow> 'c CertLRUCache \<Rightarrow> 'c option \<times> 'c CertLRUCache" where
  "Get now host c =
     (case cache c host of
        None \<Rightarrow> (None, c)
      | Some entry \<Rightarrow>
          if now > expiresAt entry
          then (None, c\<lparr>lst := Remove (listElement entry) (lst c),
                         cache := (cache c)(host := None)\<rparr>)
          else (cert entry, c\<lparr>lst := MoveToFront (listElement entry) (lst c)\<rparr>))"

text \<open>
  \<^verbatim>\<open>Put\<close>. In the eviction branch \<^verbatim>\<open>c.list.Remove(e)\<close> dereferences \<open>e\<close>, which
  panics when \<^verbatim>\<open>Back()\<close> returned \<^verbatim>\<open>nil\<close>, and \<^verbatim>\<open>e.Value.(string)\<close> panics when the
  value is not a string.
\<close>

definition Put :: "string \<Rightarrow> int \<Rightarrow> 'c option \<Rightarrow> 'c CertLRUCache \<Rightarrow> panic + 'c CertLRUCache" where
  "Put host expiresAt' cert' c =
     (case cache c host of
        Some e \<Rightarrow>
          Inr (c\<lparr>lst := MoveToFront (listElement e) (lst c),
                 cache := (cache c)(host \<mapsto>
                   \<lparr>cert = cert', expiresAt = expiresAt', listElement = listElement e\<rparr>)\<rparr>)
      | None \<Rightarrow>
          (case (if int (Len (lst c)) \<ge> maxSize c
                 then (case Back (lst c) of
                         None \<Rightarrow> Inl NilDereference
                       | Some e \<Rightarrow>
                           (case snd e of
                              VOther \<Rightarrow> Inl TypeAssertion
                            | VString k \<Rightarrow>
                                Inr (c\<lparr>lst := Remove (fst e) (lst c),
                                       cache := (cache c)(k := None)\<rparr>)))
                 else Inr c) of
             Inl p \<Rightarrow> Inl p
           | Inr c1 \<Rightarrow>
               Inr (c1\<lparr>lst := PushFront (next_addr c1) (VString host) (lst c1),
                       cache := (cache c1)(host \<mapsto>
                         \<lparr>cert = cert', expiresAt = expiresAt', listElement = next_addr c1\<rparr>),
                       next_addr := Suc (next_addr c1)\<rparr>)))"

text \<open>\<^verbatim>\<open>Purge\<close>: a new map and a new list.\<close>

definition Purge :: "'c CertLRUCache \<Rightarrow> 'c CertLRUCache" where
  "Purge c = c\<lparr>cache := Map.empty, lst := list_New\<rparr>"

text \<open>
  One tick of the sweeper. Go's \<^verbatim>\<open>range\<close> over the map visits the keys in an order the
  language leaves open, and the loop reads the clock anew at every key; the only key it
  deletes is the one it is visiting, so it visits every key of the map once. A tick is
  therefore given the visits it makes: the keys in the order of the iteration, each with
  the clock reading \<^verbatim>\<open>time.Now().Unix()\<close> of its visit. \<open>sweepVisit\<close> is the body of the
  loop.
\<close>

definition sweepVisit :: "string \<times> int \<Rightarrow> 'c CertLRUCache \<Rightarrow> 'c CertLRUCache" where
  "sweepVisit visit c =
     (case cache c (fst visit) of
        None \<Rightarrow> c
      | Some entry \<Rightarrow>
          if snd visit > expiresAt entry
          then c\<lparr>lst := Remove (listElement entry) (lst c),
                  cache := (cache c)(fst visit := None)\<rparr>
          else c)"

definition sweepTick :: "(string \<times> int) list \<Rightarrow> 'c CertLRUCache \<Rightarrow> 'c CertLRUCache" where
  "sweepTick visits c = fold sweepVisit visits c"

subsection \<open>Invariants, runs and reachable states\<close>

text \<open>
  The link between the two structures. The elements of the list have different addresses,
  all of them handed out by the allocator; every entry of the map points to the element of
  the list whose value is the entry's key; and every element of the list holds a key of
  the map whose entry points back to it.
\<close>

definition bijection :: "'c CertLRUCache \<Rightarrow> bool" where
  "bijection c \<longleftrightarrow>
     distinct (map fst (lst c)) \<and>
     (\<forall>e \<in> set (lst c). fst e < next_addr c) \<and>
     (\<forall>k entry. cache c k = Some entry \<longrightarrow> (listElement entry, VString k) \<in> set (lst c)) \<and>
     (\<forall>e \<in> set (lst c). \<exists>k entry. snd e = VString k \<and> cache c k = Some entry \<and> listElement entry = fst e)"

text \<open>The invariant of the data model: the link above, and at most \<open>maxSize\<close> entries.\<close>

definition cache_inv :: "'c CertLRUCache \<Rightarrow> bool" where
  "cache_inv c \<longleftrightarrow> bijection c \<and> int (Len (lst c)) \<le> maxSize c"

text \<open>A run of \<^verbatim>\<open>Put\<close> calls, stopping at the first panic.\<close>

fun puts :: "(string \<times> int \<times> 'c option) list \<Rightarrow> 'c CertLRUCache \<Rightarrow> panic + 'c CertLRUCache" where
  "puts [] c = Inr c"
| "puts ((host, t, v) # ps) c =
     (case Put host t v c of Inl p \<Rightarrow> Inl p | Inr c' \<Rightarrow> puts ps c')"

text \<open>
  The states a cache built by \<^verbatim>\<open>NewCertLRUCache\<close> with capacity \<open>m\<close> can be in after
  any sequence of \<^verbatim>\<open>Get\<close>, \<^verbatim>\<open>Put\<close>, \<^verbatim>\<open>Purge\<close> and ticks of the sweeper: the clock
  readings are arbitrary, a \<^verbatim>\<open>Put\<close> that panics ends the run, and a tick visits every
  key of the map once, in any order.
\<close>

inductive reach :: "int \<Rightarrow> 'c CertLRUCache \<Rightarrow> bool" for m :: int where
  reach_New: "reach m (NewCertLRUCache m cleanupInterval)"
| reach_Get: "reach m c \<Longrightarrow> reach m (snd (Get now host c))"
| reach_Put: "reach m c \<Longrightarrow> Put host t v c = Inr c' \<Longrightarrow> reach m c'"
| reach_Purge: "reach m c \<Longrightarrow> reach m (Purge c)"
| reach_sweepTick:
    "reach m c \<Longrightarrow> distinct (map fst visits) \<Longrightarrow> set (map fst visits) = dom (cache c) \<Longrightarrow>
     reach m (sweepTick visits c)"

subsection \<open>An example state\<close>

text \<open>
  A cache of capacity 2 that is full: \<open>''b''\<close> is the most recently used host and
  \<open>''a''\<close> the least recently used one.
\<close>

definition example_cache :: "nat CertLRUCache" where
  "example_cache =
     \<lparr>maxSize = 2,
      lst = [(1, VString ''b''), (0, VString ''a'')],
      cache = [''a'' \<mapsto> \<lparr>cert = Some 10, expiresAt = 100, listElement = 0\<rparr>,
               ''b'' \<mapsto> \<lparr>cert = Some 20, expiresAt = 200, listElement = 1\<rparr>],
      next_addr = 2\<rparr>"

subsection \<open>Expired entries\<close>

text \<open>
  \<open>expired now c k\<close>: the key \<open>k\<close> is in the map and \<open>now > expiresAt\<close> of its entry.
  \<open>survives now c e\<close>: the element \<open>e\<close> of the list does not hold an expired key.
\<close>

definition expired :: "int \<Rightarrow> 'c CertLRUCache \<Rightarrow> string \<Rightarrow> bool" where
  "expired now c k = (case cache c k of None \<Rightarrow> False | Some entry \<Rightarrow> now > expiresAt entry)"

definition survives :: "int \<Rightarrow> 'c CertLRUCache \<Rightarrow> element \<Rightarrow> bool" where
  "survives now c e = (case snd e of VString k \<Rightarrow> \<not> expired now c k | VOther \<Rightarrow> True)"

section \<open>Lemmas\<close>

lemma bij_same_addr:
  "bijection c \<Longrightarrow> (a, v) \<in> set (lst c) \<Longrightarrow> (a, w) \<in> set (lst c) \<Longrightarrow> v = w"
  unfolding bijection_def by (meson eq_key_imp_eq_value)

lemma bij_keys_distinct: "bijection c \<Longrightarrow> distinct (map snd (lst c))"
proof -
  assume b: "bijection c"
  have "inj_on snd (set (lst c))"
  proof (rule inj_onI)
    fix x y assume x: "x \<in> set (lst c)" and y: "y \<in> set (lst c)" and e: "snd x = snd y"
    from b x obtain k entry where 1: "snd x = VString k" "cache c k = Some entry" "listElement entry = fst x"
      unfolding bijection_def by blast
    from b y obtain k' entry' where 2: "snd y = VString k'" "cache c k' = Some entry'" "listElement entry' = fst y"
      unfolding bijection_def by blast
    from 1 2 e have "fst x = fst y" by auto
    with e show "x = y" by (simp add: prod_eq_iff)
  qed
  moreover have "distinct (lst c)" using b unfolding bijection_def by (simp add: distinct_map)
  ultimately show ?thesis by (simp add: distinct_map)
qed

lemma bij_dom: "bijection c \<Longrightarrow> VString ` dom (cache c) = set (map snd (lst c))"
  unfolding bijection_def by (force simp: image_iff dom_def)

lemma bij_finite: "bijection c \<Longrightarrow> finite (dom (cache c))"
proof -
  assume "bijection c"
  then have "finite (VString ` dom (cache c))" by (simp add: bij_dom)
  then show ?thesis by (rule finite_imageD) (simp add: inj_on_def)
qed

lemma bij_card: "bijection c \<Longrightarrow> card (dom (cache c)) = length (lst c)"
proof -
  assume b: "bijection c"
  have "card (dom (cache c)) = card (VString ` dom (cache c))"
    by (rule card_image [symmetric]) (simp add: inj_on_def)
  also have "\<dots> = card (set (map snd (lst c)))" using b by (simp add: bij_dom)
  also have "\<dots> = length (lst c)" using bij_keys_distinct [OF b] distinct_card by fastforce
  finally show ?thesis .
qed

lemma bij_Remove:
  assumes b: "bijection c" and hit: "cache c k = Some entry"
  shows "bijection (c\<lparr>lst := Remove (listElement entry) (lst c), cache := (cache c)(k := None)\<rparr>)"
proof -
  let ?a = "listElement entry"
  have d: "distinct (map fst (lst c))" using b by (simp add: bijection_def)
  have mem: "(?a, VString k) \<in> set (lst c)" using b hit by (simp add: bijection_def)
  have 3: "(listElement entry', VString k') \<in> set (lst c) \<and> listElement entry' \<noteq> ?a"
    if "k' \<noteq> k" "cache c k' = Some entry'" for k' entry'
  proof -
    have m': "(listElement entry', VString k') \<in> set (lst c)" using b that by (simp add: bijection_def)
    have "listElement entry' \<noteq> ?a"
    proof
      assume "listElement entry' = ?a"
      with m' mem d have "VString k' = VString k" by (metis eq_key_imp_eq_value)
      with that show False by simp
    qed
    with m' show ?thesis by simp
  qed
  have 4: "\<exists>k' entry'. v = VString k' \<and> k' \<noteq> k \<and> cache c k' = Some entry' \<and> listElement entry' = a"
    if "(a, v) \<in> set (lst c)" "a \<noteq> ?a" for a v
  proof -
    from b that obtain k' entry' where *: "v = VString k'" "cache c k' = Some entry'" "listElement entry' = a"
      unfolding bijection_def by fastforce
    with that hit have "k' \<noteq> k" by auto
    with * show ?thesis by blast
  qed
  have "distinct (map fst (Remove ?a (lst c)))"
    using d by (simp add: Remove_def distinct_map_filter)
  moreover have "\<forall>e \<in> set (Remove ?a (lst c)). fst e < next_addr c"
    using b by (simp add: Remove_def bijection_def)
  moreover have "\<forall>k' entry'. ((cache c)(k := None)) k' = Some entry' \<longrightarrow>
      (listElement entry', VString k') \<in> set (Remove ?a (lst c))"
    using 3 by (simp add: Remove_def)
  moreover have "\<forall>e \<in> set (Remove ?a (lst c)). \<exists>k' entry'. snd e = VString k' \<and>
      ((cache c)(k := None)) k' = Some entry' \<and> listElement entry' = fst e"
    using 4 by (fastforce simp: Remove_def)
  ultimately show ?thesis
    unfolding bijection_def by simp
qed

lemma find_addr:
  "distinct (map fst l) \<Longrightarrow> (a, v) \<in> set l \<Longrightarrow> find (\<lambda>e. fst e = a) l = Some (a, v)"
  by (induction l) (auto simp: image_iff)

lemma Remove_absent: "a \<notin> fst ` set l \<Longrightarrow> Remove a l = l"
  by (induction l) (auto simp: Remove_def)

lemma Remove_last:
  assumes "distinct (map fst l)" "l \<noteq> []"
  shows "Remove (fst (last l)) l = butlast l"
proof -
  from assms(2) have l: "l = butlast l @ [last l]" by simp
  with assms(1) have "distinct (map fst (butlast l @ [last l]))" by simp
  then have "fst (last l) \<notin> fst ` set (butlast l)" by simp
  then have "Remove (fst (last l)) (butlast l) = butlast l" by (rule Remove_absent)
  then have "Remove (fst (last l)) (butlast l @ [last l]) = butlast l"
    by (simp add: Remove_def)
  with l show ?thesis by simp
qed

lemma MoveToFront_member:
  assumes d: "distinct (map fst l)" and m: "(a, v) \<in> set l"
  shows "MoveToFront a l = (a, v) # Remove a l"
proof (cases "fst (hd l) = a")
  case False
  then show ?thesis using find_addr [OF d m] by (simp add: MoveToFront_def)
next
  case True
  from m obtain x xs where l: "l = x # xs" by (cases l) auto
  with True have fx: "fst x = a" by simp
  with d l m have x: "x = (a, v)" by (auto simp: image_iff)
  from d l fx have "a \<notin> fst ` set xs" by auto
  then have "Remove a xs = xs" by (rule Remove_absent)
  then have "Remove a l = xs" using l x by (simp add: Remove_def)
  with True l x show ?thesis using find_addr [OF d m] by (simp add: MoveToFront_def)
qed

lemma MoveToFront_absent: "a \<notin> fst ` set l \<Longrightarrow> MoveToFront a l = l"
proof -
  assume "a \<notin> fst ` set l"
  then have "find (\<lambda>e. fst e = a) l = None" by (force simp: find_None_iff)
  then show ?thesis by (simp add: MoveToFront_def)
qed

lemma set_Remove_member:
  "distinct (map fst l) \<Longrightarrow> (a, v) \<in> set l \<Longrightarrow> set (Remove a l) = set l - {(a, v)}"
  by (auto simp: Remove_def dest: eq_key_imp_eq_value)

lemma length_Remove_member:
  "distinct (map fst l) \<Longrightarrow> (a, v) \<in> set l \<Longrightarrow> Suc (length (Remove a l)) = length l"
proof (induction l)
  case Nil
  then show ?case by simp
next
  case (Cons x xs)
  show ?case
  proof (cases "fst x = a")
    case True
    with Cons.prems have "a \<notin> fst ` set xs" by auto
    then have "Remove a xs = xs" by (rule Remove_absent)
    with True show ?thesis by (simp add: Remove_def)
  next
    case False
    with Cons.prems have "(a, v) \<in> set xs" by auto
    with Cons.IH Cons.prems have "Suc (length (Remove a xs)) = length xs" by simp
    with False show ?thesis by (simp add: Remove_def)
  qed
qed

lemma MoveToFront_props:
  assumes d: "distinct (map fst l)"
  shows "set (MoveToFront a l) = set l" "distinct (map fst (MoveToFront a l))"
    "length (MoveToFront a l) = length l"
proof -
  have "set (MoveToFront a l) = set l \<and> distinct (map fst (MoveToFront a l)) \<and>
    length (MoveToFront a l) = length l"
  proof (cases "a \<in> fst ` set l")
    case False
    then show ?thesis using d by (simp add: MoveToFront_absent)
  next
    case True
    then obtain v where m: "(a, v) \<in> set l" by auto
    have "distinct (map fst (Remove a l))" using d by (simp add: Remove_def distinct_map_filter)
    moreover have "a \<notin> fst ` set (Remove a l)" by (auto simp: Remove_def)
    ultimately show ?thesis
      using MoveToFront_member [OF d m] set_Remove_member [OF d m] length_Remove_member [OF d m] m
      by auto
  qed
  then show "set (MoveToFront a l) = set l" "distinct (map fst (MoveToFront a l))"
    "length (MoveToFront a l) = length l" by simp_all
qed

lemma bij_member: "bijection c \<Longrightarrow> cache c k = Some entry \<Longrightarrow> (listElement entry, VString k) \<in> set (lst c)"
  by (simp add: bijection_def)

lemma bij_distinct: "bijection c \<Longrightarrow> distinct (map fst (lst c))"
  by (simp add: bijection_def)

lemma bij_element:
  "bijection c \<Longrightarrow> (a, v) \<in> set (lst c) \<Longrightarrow>
   \<exists>k entry. v = VString k \<and> cache c k = Some entry \<and> listElement entry = a"
  unfolding bijection_def by fastforce

lemma bij_New: "bijection (NewCertLRUCache m d)"
  by (simp add: bijection_def NewCertLRUCache_def list_New_def)

lemma bij_Purge: "bijection (Purge c)"
  by (simp add: bijection_def Purge_def list_New_def)

lemma bij_MoveToFront:
  assumes b: "bijection c"
  shows "bijection (c\<lparr>lst := MoveToFront a (lst c)\<rparr>)"
  using b MoveToFront_props(1,2) [OF bij_distinct [OF b], of a]
  by (simp add: bijection_def)

lemma bij_update:
  assumes b: "bijection c" and hit: "cache c host = Some e"
  shows "bijection (c\<lparr>lst := MoveToFront (listElement e) (lst c),
     cache := (cache c)(host \<mapsto> \<lparr>cert = v, expiresAt = t, listElement = listElement e\<rparr>)\<rparr>)"
proof -
  let ?l = "MoveToFront (listElement e) (lst c)"
  let ?m = "(cache c)(host \<mapsto> \<lparr>cert = v, expiresAt = t, listElement = listElement e\<rparr>)"
  have s: "set ?l = set (lst c)" and d: "distinct (map fst ?l)"
    using MoveToFront_props [OF bij_distinct [OF b]] by simp_all
  have 3: "\<forall>k entry. ?m k = Some entry \<longrightarrow> (listElement entry, VString k) \<in> set ?l"
    using b hit s by (auto simp: bijection_def)
  have 4: "\<exists>k entry. snd x = VString k \<and> ?m k = Some entry \<and> listElement entry = fst x"
    if "x \<in> set ?l" for x
  proof -
    from that s have "(fst x, snd x) \<in> set (lst c)" by simp
    from bij_element [OF b this] obtain k entry where
      *: "snd x = VString k" "cache c k = Some entry" "listElement entry = fst x" by blast
    show ?thesis
    proof (cases "k = host")
      case True
      with * hit show ?thesis by simp
    next
      case False
      with * show ?thesis by simp
    qed
  qed
  have "\<forall>x \<in> set ?l. fst x < next_addr c" using b s by (simp add: bijection_def)
  with d 3 4 show ?thesis by (simp add: bijection_def)
qed

lemma bij_insert:
  assumes b: "bijection c" and miss: "cache c host = None"
  shows "bijection (c\<lparr>lst := PushFront (next_addr c) (VString host) (lst c),
     cache := (cache c)(host \<mapsto> \<lparr>cert = v, expiresAt = t, listElement = next_addr c\<rparr>),
     next_addr := Suc (next_addr c)\<rparr>)"
proof -
  let ?l = "PushFront (next_addr c) (VString host) (lst c)"
  let ?m = "(cache c)(host \<mapsto> \<lparr>cert = v, expiresAt = t, listElement = next_addr c\<rparr>)"
  have lt: "\<forall>x \<in> set (lst c). fst x < next_addr c" using b by (simp add: bijection_def)
  then have "next_addr c \<notin> fst ` set (lst c)" by auto
  then have d: "distinct (map fst ?l)" using bij_distinct [OF b] by (simp add: PushFront_def)
  have 2: "\<forall>x \<in> set ?l. fst x < Suc (next_addr c)"
    using lt by (auto simp: PushFront_def)
  have 3: "\<forall>k entry. ?m k = Some entry \<longrightarrow> (listElement entry, VString k) \<in> set ?l"
    using b by (auto simp: bijection_def PushFront_def)
  have 4: "\<exists>k entry. snd x = VString k \<and> ?m k = Some entry \<and> listElement entry = fst x"
    if "x \<in> set ?l" for x
  proof (cases "x = (next_addr c, VString host)")
    case True
    then show ?thesis by simp
  next
    case False
    with that have "(fst x, snd x) \<in> set (lst c)" by (simp add: PushFront_def)
    from bij_element [OF b this] obtain k entry where
      *: "snd x = VString k" "cache c k = Some entry" "listElement entry = fst x" by blast
    with miss have "k \<noteq> host" by auto
    with * show ?thesis by simp
  qed
  from d 2 3 4 show ?thesis by (simp add: bijection_def)
qed

lemma bij_Get: "bijection c \<Longrightarrow> bijection (snd (Get now host c))"
  by (simp add: Get_def bij_Remove bij_MoveToFront split: option.split)

lemma bij_sweepVisit: "bijection c \<Longrightarrow> bijection (sweepVisit visit c)"
  by (simp add: sweepVisit_def bij_Remove split: option.split)

lemma bij_sweepTick: "bijection c \<Longrightarrow> bijection (sweepTick visits c)"
  unfolding sweepTick_def
  by (induction visits arbitrary: c) (simp_all add: bij_sweepVisit)

lemma Put_present:
  "cache c host = Some e \<Longrightarrow>
   Put host t v c = Inr (c\<lparr>lst := MoveToFront (listElement e) (lst c),
     cache := (cache c)(host \<mapsto> \<lparr>cert = v, expiresAt = t, listElement = listElement e\<rparr>)\<rparr>)"
  by (simp add: Put_def)

lemma Put_room:
  "cache c host = None \<Longrightarrow> int (length (lst c)) < maxSize c \<Longrightarrow>
   Put host t v c = Inr (c\<lparr>lst := (next_addr c, VString host) # lst c,
     cache := (cache c)(host \<mapsto> \<lparr>cert = v, expiresAt = t, listElement = next_addr c\<rparr>),
     next_addr := Suc (next_addr c)\<rparr>)"
  by (simp add: Put_def Len_def PushFront_def)

lemma bij_Back:
  assumes b: "bijection c" and ne: "lst c \<noteq> []"
  shows "\<exists>a k entry. Back (lst c) = Some (a, VString k) \<and> cache c k = Some entry \<and>
    listElement entry = a"
proof -
  from ne have "(fst (last (lst c)), snd (last (lst c))) \<in> set (lst c)" by simp
  from bij_element [OF b this] obtain k entry where
    "snd (last (lst c)) = VString k" "cache c k = Some entry" "listElement entry = fst (last (lst c))"
    by blast
  with ne show ?thesis by (simp add: Back_def prod_eq_iff)
qed

lemma Put_evict:
  assumes b: "bijection c" and miss: "cache c host = None"
    and full: "maxSize c \<le> int (length (lst c))"
    and bk: "Back (lst c) = Some (a, VString k)"
  shows "Put host t v c = Inr (c\<lparr>lst := (next_addr c, VString host) # butlast (lst c),
     cache := ((cache c)(k := None))(host \<mapsto> \<lparr>cert = v, expiresAt = t, listElement = next_addr c\<rparr>),
     next_addr := Suc (next_addr c)\<rparr>)"
proof -
  from bk have ne: "lst c \<noteq> []" and l: "last (lst c) = (a, VString k)"
    by (auto simp: Back_def split: if_splits)
  have "Remove (fst (last (lst c))) (lst c) = butlast (lst c)"
    using Remove_last [OF bij_distinct [OF b] ne] .
  with l have "Remove a (lst c) = butlast (lst c)" by simp
  with miss full bk show ?thesis by (simp add: Put_def Len_def PushFront_def)
qed

lemma bij_Put:
  assumes b: "bijection c" and put: "Put host t v c = Inr c'"
  shows "bijection c'"
proof (cases "cache c host")
  case (Some e)
  with put bij_update [OF b Some, of v t] show ?thesis by (auto simp: Put_present)
next
  case None
  show ?thesis
  proof (cases "int (length (lst c)) < maxSize c")
    case True
    with put None bij_insert [OF b None, of v t] show ?thesis
      by (auto simp: Put_room PushFront_def)
  next
    case False
    with put None have ne: "lst c \<noteq> []"
      by (auto simp: Put_def Len_def Back_def split: if_splits)
    from bij_Back [OF b ne] obtain a k entry where
      bk: "Back (lst c) = Some (a, VString k)" and hit: "cache c k = Some entry"
      and a: "listElement entry = a" by blast
    let ?c1 = "c\<lparr>lst := Remove a (lst c), cache := (cache c)(k := None)\<rparr>"
    have b1: "bijection ?c1" using bij_Remove [OF b hit] a by simp
    have "cache ?c1 host = None" using None by simp
    from bij_insert [OF b1 this, of v t] have "bijection (?c1\<lparr>lst := PushFront (next_addr c) (VString host) (Remove a (lst c)),
      cache := ((cache c)(k := None))(host \<mapsto> \<lparr>cert = v, expiresAt = t, listElement = next_addr c\<rparr>),
      next_addr := Suc (next_addr c)\<rparr>)" by simp
    moreover have "Put host t v c = Inr (?c1\<lparr>lst := PushFront (next_addr c) (VString host) (Remove a (lst c)),
      cache := ((cache c)(k := None))(host \<mapsto> \<lparr>cert = v, expiresAt = t, listElement = next_addr c\<rparr>),
      next_addr := Suc (next_addr c)\<rparr>)"
      using None False bk by (simp add: Put_def Len_def)
    ultimately show ?thesis using put by auto
  qed
qed

lemma Put_total:
  assumes b: "bijection c" and m: "1 \<le> maxSize c"
  shows "\<exists>c'. Put host t v c = Inr c'"
proof (cases "cache c host")
  case (Some e)
  then show ?thesis by (simp add: Put_present)
next
  case None
  show ?thesis
  proof (cases "int (length (lst c)) < maxSize c")
    case True
    with None show ?thesis by (simp add: Put_room)
  next
    case False
    with m have ne: "lst c \<noteq> []" by auto
    from bij_Back [OF b ne] obtain a k where "Back (lst c) = Some (a, VString k)" by blast
    from Put_evict [OF b None _ this] False show ?thesis by simp
  qed
qed

lemma Put_length:
  assumes b: "bijection c" and put: "Put host t v c = Inr c'"
  shows "length (lst c') =
    (if cache c host = None \<and> int (length (lst c)) < maxSize c then Suc (length (lst c))
     else length (lst c))"
proof (cases "cache c host")
  case (Some e)
  with put MoveToFront_props(3) [OF bij_distinct [OF b]] show ?thesis by (auto simp: Put_present)
next
  case None
  show ?thesis
  proof (cases "int (length (lst c)) < maxSize c")
    case True
    with put None show ?thesis by (auto simp: Put_room)
  next
    case False
    with put None have ne: "lst c \<noteq> []"
      by (auto simp: Put_def Len_def Back_def split: if_splits)
    from bij_Back [OF b ne] obtain a k where bk: "Back (lst c) = Some (a, VString k)" by blast
    from Put_evict [OF b None _ bk, of t v] False put ne None show ?thesis by auto
  qed
qed

lemma inv_Put:
  assumes i: "cache_inv c" and put: "Put host t v c = Inr c'"
  shows "cache_inv c'"
proof -
  from i have b: "bijection c" and cap: "int (length (lst c)) \<le> maxSize c"
    by (simp_all add: cache_inv_def Len_def)
  have "maxSize c' = maxSize c"
    using put by (auto simp: Put_def split: option.splits if_splits anyval.splits)
  with Put_length [OF b put] cap bij_Put [OF b put] show ?thesis
    by (auto simp: cache_inv_def Len_def split: if_splits)
qed

lemma length_Remove: "length (Remove a l) \<le> length l"
  by (simp add: Remove_def)

lemma inv_New: "0 \<le> m \<Longrightarrow> cache_inv (NewCertLRUCache m d)"
  by (simp add: cache_inv_def bij_New) (simp add: NewCertLRUCache_def list_New_def Len_def)

lemma inv_Purge: "cache_inv c \<Longrightarrow> cache_inv (Purge c)"
  by (simp add: cache_inv_def bij_Purge) (simp add: Purge_def list_New_def Len_def)

lemma inv_Get:
  assumes i: "cache_inv c"
  shows "cache_inv (snd (Get now host c))"
proof -
  from i have b: "bijection c" by (simp add: cache_inv_def)
  have "length (lst (snd (Get now host c))) \<le> length (lst c)"
    using MoveToFront_props(3) [OF bij_distinct [OF b]]
    by (simp add: Get_def length_Remove split: option.split)
  moreover have "maxSize (snd (Get now host c)) = maxSize c"
    by (simp add: Get_def split: option.split)
  ultimately show ?thesis using i bij_Get [OF b, of now host]
    by (simp add: cache_inv_def Len_def)
qed

lemma inv_sweepVisit:
  assumes i: "cache_inv c"
  shows "cache_inv (sweepVisit visit c)"
proof -
  from i have b: "bijection c" by (simp add: cache_inv_def)
  have "length (lst (sweepVisit visit c)) \<le> length (lst c)"
    by (simp add: sweepVisit_def length_Remove split: option.split)
  moreover have "maxSize (sweepVisit visit c) = maxSize c"
    by (simp add: sweepVisit_def split: option.split)
  ultimately show ?thesis using i bij_sweepVisit [OF b, of visit]
    by (simp add: cache_inv_def Len_def)
qed

lemma inv_sweepTick: "cache_inv c \<Longrightarrow> cache_inv (sweepTick visits c)"
  unfolding sweepTick_def
  by (induction visits arbitrary: c) (simp_all add: inv_sweepVisit)

lemma maxSize_Get: "maxSize (snd (Get now host c)) = maxSize c"
  by (simp add: Get_def split: option.split)

lemma maxSize_Put: "Put host t v c = Inr c' \<Longrightarrow> maxSize c' = maxSize c"
  by (auto simp: Put_def split: option.splits if_splits anyval.splits)

lemma maxSize_sweepVisit: "maxSize (sweepVisit visit c) = maxSize c"
  by (simp add: sweepVisit_def split: option.split)

lemma maxSize_sweepTick: "maxSize (sweepTick visits c) = maxSize c"
  unfolding sweepTick_def
  by (induction visits arbitrary: c) (simp_all add: maxSize_sweepVisit)

lemma reach_inv:
  assumes m: "0 \<le> m" and r: "reach m c"
  shows "cache_inv c \<and> maxSize c = m"
  using r
proof (induction rule: reach.induct)
  case (reach_New cleanupInterval)
  show ?case using m by (simp add: inv_New) (simp add: NewCertLRUCache_def)
next
  case (reach_Get c now host)
  then show ?case by (simp add: inv_Get maxSize_Get)
next
  case (reach_Put c host t v c')
  then show ?case using inv_Put maxSize_Put by metis
next
  case (reach_Purge c)
  then show ?case by (simp add: inv_Purge) (simp add: Purge_def)
next
  case (reach_sweepTick c visits)
  then show ?case by (simp add: inv_sweepTick maxSize_sweepTick)
qed

lemma Put_dom_grow:
  assumes put: "Put host t v c = Inr c'"
    and room: "cache c host \<noteq> None \<or> int (length (lst c)) < maxSize c"
  shows "dom (cache c') = insert host (dom (cache c))"
proof (cases "cache c host")
  case (Some e)
  with put show ?thesis by (auto simp: Put_present)
next
  case None
  with room have "int (length (lst c)) < maxSize c" by simp
  with put None show ?thesis by (auto simp: Put_room)
qed

lemma puts_count:
  assumes i: "cache_inv c" and m: "1 \<le> maxSize c"
  shows "\<exists>c'. puts ps c = Inr c' \<and> cache_inv c' \<and> maxSize c' = maxSize c \<and>
    card (dom (cache c')) = min (nat (maxSize c)) (card (dom (cache c) \<union> fst ` set ps))"
  using i m
proof (induction ps arbitrary: c)
  case Nil
  then have b: "bijection c" and "int (length (lst c)) \<le> maxSize c"
    by (simp_all add: cache_inv_def Len_def)
  with bij_card [OF b] Nil show ?case by simp
next
  case (Cons p ps)
  obtain host t v where p: "p = (host, t, v)" by (cases p)
  from Cons.prems have b: "bijection c" and cap: "int (length (lst c)) \<le> maxSize c"
    by (simp_all add: cache_inv_def Len_def)
  from Put_total [OF b Cons.prems(2)] obtain c1 where put: "Put host t v c = Inr c1" by blast
  have i1: "cache_inv c1" using inv_Put [OF Cons.prems(1) put] .
  have m1: "maxSize c1 = maxSize c" using maxSize_Put [OF put] .
  from Cons.IH [OF i1] Cons.prems(2) m1 obtain c' where
    run: "puts ps c1 = Inr c'" and i': "cache_inv c'" and m': "maxSize c' = maxSize c"
    and n: "card (dom (cache c')) = min (nat (maxSize c)) (card (dom (cache c1) \<union> fst ` set ps))"
    by auto
  have b1: "bijection c1" using i1 by (simp add: cache_inv_def)
  have "min (nat (maxSize c)) (card (dom (cache c1) \<union> fst ` set ps)) =
    min (nat (maxSize c)) (card (dom (cache c) \<union> fst ` set (p # ps)))"
  proof (cases "cache c host \<noteq> None \<or> int (length (lst c)) < maxSize c")
    case True
    from Put_dom_grow [OF put True] p show ?thesis by simp
  next
    case False
    with cap have full: "length (lst c) = nat (maxSize c)" by linarith
    with Put_length [OF b put] False have full1: "length (lst c1) = nat (maxSize c)" by simp
    have f: "finite (dom (cache c) \<union> fst ` set (p # ps))" "finite (dom (cache c1) \<union> fst ` set ps)"
      using bij_finite [OF b] bij_finite [OF b1] by simp_all
    have "card (dom (cache c)) \<le> card (dom (cache c) \<union> fst ` set (p # ps))"
      using f(1) by (intro card_mono) auto
    moreover have "card (dom (cache c1)) \<le> card (dom (cache c1) \<union> fst ` set ps)"
      using f(2) by (intro card_mono) auto
    ultimately show ?thesis using bij_card [OF b] bij_card [OF b1] full full1 by simp
  qed
  with run put p i' m' n show ?case by simp
qed

lemma example_cache_puts:
  "puts [(''a'', 100, Some 10), (''b'', 200, Some 20)] (NewCertLRUCache 2 1) = Inr example_cache"
  by (simp add: example_cache_def Put_def NewCertLRUCache_def list_New_def Len_def PushFront_def)

lemma reach_puts: "reach m c \<Longrightarrow> puts ps c = Inr c' \<Longrightarrow> reach m c'"
proof (induction ps arbitrary: c)
  case Nil
  then show ?case by simp
next
  case (Cons p ps)
  obtain host t v where p: "p = (host, t, v)" by (cases p)
  with Cons.prems(2) obtain c1 where 1: "Put host t v c = Inr c1" and 2: "puts ps c1 = Inr c'"
    by (auto split: sum.splits)
  from reach_Put [OF Cons.prems(1) 1] have "reach m c1" .
  from Cons.IH [OF this 2] show ?case .
qed

lemma example_cache_reach: "reach 2 example_cache"
  using reach_puts [OF reach_New example_cache_puts] .

lemma example_cache_inv: "cache_inv example_cache"
  using reach_inv [OF _ example_cache_reach] by simp

lemma example_cache_bij: "bijection example_cache"
  using example_cache_inv by (simp add: cache_inv_def)

lemma Put_new:
  assumes i: "cache_inv c" and m: "1 \<le> maxSize c" and miss: "cache c host = None"
  shows "\<exists>c'. Put host t v c = Inr c' \<and> cache_inv c' \<and>
    hd (lst c') = (next_addr c, VString host) \<and>
    cache c' host = Some \<lparr>cert = v, expiresAt = t, listElement = next_addr c\<rparr>"
proof -
  from i have b: "bijection c" by (simp add: cache_inv_def)
  from Put_total [OF b m] obtain c' where put: "Put host t v c = Inr c'" by blast
  have "hd (lst c') = (next_addr c, VString host) \<and>
    cache c' host = Some \<lparr>cert = v, expiresAt = t, listElement = next_addr c\<rparr>"
    using put miss
    by (auto simp: Put_def PushFront_def split: if_splits option.splits anyval.splits)
  with put inv_Put [OF i put] show ?thesis by simp
qed

lemma example_cache_Back: "Back (lst example_cache) = Some (0, VString ''a'')"
  by (simp add: example_cache_def Back_def)

lemma Put_capacity_zero_panics: "Put host t v (NewCertLRUCache 0 d) = Inl NilDereference"
  by (simp add: Put_def NewCertLRUCache_def list_New_def Len_def Back_def)

lemma Put_full:
  assumes i: "cache_inv c" and m: "1 \<le> maxSize c" and miss: "cache c host = None"
    and full: "maxSize c \<le> int (Len (lst c))"
  shows "\<exists>a k entry c'. Back (lst c) = Some (a, VString k) \<and> cache c k = Some entry \<and>
    listElement entry = a \<and>
    Put host t v c = Inr c' \<and>
    lst c' = (next_addr c, VString host) # butlast (lst c) \<and>
    cache c' = ((cache c)(k := None))(host \<mapsto>
      \<lparr>cert = v, expiresAt = t, listElement = next_addr c\<rparr>) \<and>
    cache c' k = None \<and> VString k \<notin> snd ` set (lst c') \<and>
    Len (lst c') = Len (lst c) \<and>
    card (dom (cache c')) = card (dom (cache c))"
proof -
  from i have b: "bijection c" by (simp add: cache_inv_def)
  from full m have ne: "lst c \<noteq> []" by (auto simp: Len_def)
  from bij_Back [OF b ne] obtain a k entry where
    bk: "Back (lst c) = Some (a, VString k)" and hit: "cache c k = Some entry"
    and a: "listElement entry = a" by blast
  let ?c' = "c\<lparr>lst := (next_addr c, VString host) # butlast (lst c),
     cache := ((cache c)(k := None))(host \<mapsto> \<lparr>cert = v, expiresAt = t, listElement = next_addr c\<rparr>),
     next_addr := Suc (next_addr c)\<rparr>"
  from full have full': "maxSize c \<le> int (length (lst c))" by (simp add: Len_def)
  have put: "Put host t v c = Inr ?c'" using Put_evict [OF b miss full' bk] .
  have b': "bijection ?c'" using bij_Put [OF b put] .
  from hit miss have kh: "k \<noteq> host" by auto
  have len: "Len (lst ?c') = Len (lst c)" using ne by (simp add: Len_def)
  from bk ne have "last (lst c) = (a, VString k)" by (simp add: Back_def)
  with append_butlast_last_id [OF ne] have "butlast (lst c) @ [(a, VString k)] = lst c" by simp
  with bij_keys_distinct [OF b] have "distinct (map snd (butlast (lst c) @ [(a, VString k)]))"
    by simp
  then have "VString k \<notin> snd ` set (butlast (lst c))" by simp
  with kh have gone: "VString k \<notin> snd ` set (lst ?c')" by auto
  have "card (dom (cache ?c')) = card (dom (cache c))"
    using bij_card [OF b] bij_card [OF b'] len by (simp add: Len_def)
  with bk hit a put kh gone len show ?thesis
    by (intro exI [of _ a] exI [of _ k] exI [of _ entry] exI [of _ ?c']) simp
qed

lemma bij_addr_key:
  assumes b: "bijection c" and hit: "cache c k = Some entry" and e: "e \<in> set (lst c)"
  shows "(fst e = listElement entry) = (snd e = VString k)"
proof
  assume "fst e = listElement entry"
  with e have "(listElement entry, snd e) \<in> set (lst c)" by (metis prod.collapse)
  from bij_same_addr [OF b this bij_member [OF b hit]] show "snd e = VString k" .
next
  assume s: "snd e = VString k"
  from e have "(fst e, snd e) \<in> set (lst c)" by simp
  from bij_element [OF b this] s hit show "fst e = listElement entry" by auto
qed

lemma Remove_key:
  assumes b: "bijection c" and hit: "cache c k = Some entry"
  shows "Remove (listElement entry) (lst c) = filter (\<lambda>e. snd e \<noteq> VString k) (lst c)"
  unfolding Remove_def
  by (rule filter_cong [OF refl]) (simp add: bij_addr_key [OF b hit])

lemma Get_expired:
  "cache c host = Some entry \<Longrightarrow> expiresAt entry < now \<Longrightarrow>
   Get now host c = (None, c\<lparr>lst := Remove (listElement entry) (lst c),
                              cache := (cache c)(host := None)\<rparr>)"
  by (simp add: Get_def)

lemma Get_live:
  "cache c host = Some entry \<Longrightarrow> now \<le> expiresAt entry \<Longrightarrow>
   Get now host c = (cert entry, c\<lparr>lst := MoveToFront (listElement entry) (lst c)\<rparr>)"
  by (simp add: Get_def)

lemma Put_stores:
  "Put host t v c = Inr c' \<Longrightarrow>
   \<exists>a. cache c' host = Some \<lparr>cert = v, expiresAt = t, listElement = a\<rparr>"
  by (auto simp: Put_def split: option.splits if_splits anyval.splits)

lemma count_list_distinct: "distinct xs \<Longrightarrow> x \<in> set xs \<Longrightarrow> count_list xs x = 1"
  by (induction xs) auto

lemma Put_present_front:
  assumes b: "bijection c" and hit: "cache c host = Some e"
  shows "MoveToFront (listElement e) (lst c) =
    (listElement e, VString host) # filter (\<lambda>x. snd x \<noteq> VString host) (lst c)"
  using MoveToFront_member [OF bij_distinct [OF b] bij_member [OF b hit]] Remove_key [OF b hit]
  by simp

lemma sweepVisit_expired:
  "cache c k = Some entry \<Longrightarrow> expiresAt entry < now \<Longrightarrow>
   sweepVisit (k, now) c = c\<lparr>lst := Remove (listElement entry) (lst c), cache := (cache c)(k := None)\<rparr>"
  by (simp add: sweepVisit_def)

lemma sweepVisit_skip:
  "cache c k = None \<or> \<not> expired now c k \<Longrightarrow> sweepVisit (k, now) c = c"
  by (auto simp: sweepVisit_def expired_def split: option.splits)

lemma sweepTick_snoc:
  "sweepTick (visits @ [visit]) c = sweepVisit visit (sweepTick visits c)"
  by (simp add: sweepTick_def)

lemma sweepTick_keys:
  assumes b: "bijection c"
  shows "sweepTick (map (\<lambda>k. (k, now)) ks) c =
    c\<lparr>lst := filter (\<lambda>e. \<forall>k \<in> set ks. expired now c k \<longrightarrow> snd e \<noteq> VString k) (lst c),
      cache := (\<lambda>k. if k \<in> set ks \<and> expired now c k then None else cache c k)\<rparr>"
proof (induction ks rule: rev_induct)
  case Nil
  show ?case by (simp add: sweepTick_def)
next
  case (snoc k ks)
  let ?L = "\<lambda>K. filter (\<lambda>e. \<forall>k \<in> K. expired now c k \<longrightarrow> snd e \<noteq> VString k) (lst c)"
  let ?M = "\<lambda>K k. if k \<in> K \<and> expired now c k then None else cache c k"
  let ?c1 = "c\<lparr>lst := ?L (set ks), cache := ?M (set ks)\<rparr>"
  have step: "sweepTick (map (\<lambda>k. (k, now)) (ks @ [k])) c = sweepVisit (k, now) ?c1"
    using snoc.IH by (simp add: sweepTick_snoc)
  show ?case
  proof (cases "expired now c k \<and> k \<notin> set ks")
    case False
    then have "cache ?c1 k = None \<or> \<not> expired now ?c1 k"
      by (auto simp: expired_def)
    then have "sweepVisit (k, now) ?c1 = ?c1" by (rule sweepVisit_skip)
    moreover from False have "?L (set (ks @ [k])) = ?L (set ks)"
      by (intro filter_cong [OF refl]) auto
    moreover from False have "?M (set (ks @ [k])) = ?M (set ks)" by (intro ext) auto
    ultimately show ?thesis using step by simp
  next
    case True
    then obtain entry where hit: "cache c k = Some entry" and late: "expiresAt entry < now"
      by (auto simp: expired_def split: option.splits)
    from True hit have hit1: "cache ?c1 k = Some entry" by simp
    have "Remove (listElement entry) (?L (set ks)) = ?L (set (ks @ [k]))"
      unfolding Remove_def filter_filter
    proof (rule filter_cong [OF refl])
      fix e assume e: "e \<in> set (lst c)"
      from bij_addr_key [OF b hit e] True
      show "((\<forall>k \<in> set ks. expired now c k \<longrightarrow> snd e \<noteq> VString k) \<and> fst e \<noteq> listElement entry) =
        (\<forall>k \<in> set (ks @ [k]). expired now c k \<longrightarrow> snd e \<noteq> VString k)" by auto
    qed
    moreover have "(?M (set ks))(k := None) = ?M (set (ks @ [k]))"
      using True by (intro ext) auto
    ultimately show ?thesis
      using step sweepVisit_expired [OF hit1 late] by simp
  qed
qed

lemma sweepTick_all:
  assumes b: "bijection c" and all: "set ks = dom (cache c)"
  shows "sweepTick (map (\<lambda>k. (k, now)) ks) c =
    c\<lparr>lst := filter (survives now c) (lst c),
      cache := (\<lambda>k. if expired now c k then None else cache c k)\<rparr>"
proof -
  have in_dom: "k \<in> set ks" if "expired now c k" for k
    using that all by (auto simp: expired_def split: option.splits)
  have "filter (\<lambda>e. \<forall>k \<in> set ks. expired now c k \<longrightarrow> snd e \<noteq> VString k) (lst c) =
    filter (survives now c) (lst c)"
  proof (rule filter_cong [OF refl])
    fix e assume "e \<in> set (lst c)"
    then have "(fst e, snd e) \<in> set (lst c)" by simp
    from bij_element [OF b this] obtain k' where k': "snd e = VString k'" by blast
    show "(\<forall>k \<in> set ks. expired now c k \<longrightarrow> snd e \<noteq> VString k) = survives now c e"
      using k' in_dom by (auto simp: survives_def)
  qed
  moreover have "(\<lambda>k. if k \<in> set ks \<and> expired now c k then None else cache c k) =
    (\<lambda>k. if expired now c k then None else cache c k)"
    using in_dom by (intro ext) auto
  ultimately show ?thesis using sweepTick_keys [OF b, of now ks] by simp
qed


section \<open>The claims\<close>

text \<open>
  C1. Let the capacity \<open>m\<close> be at least 1. In every state \<open>c\<close> that a cache built by
  \<^verbatim>\<open>NewCertLRUCache\<close> reaches by any sequence of \<^verbatim>\<open>Get\<close>, \<^verbatim>\<open>Put\<close>, \<^verbatim>\<open>Purge\<close> and
  sweeper ticks, the number of keys of the map is the length of the list and is at most
  \<open>m\<close>; the values of the list are pairwise different and are exactly the keys of the
  map, so every key occurs exactly once in the list and every position of the list holds a
  key; and every entry points to the element that holds its key. Moreover any run of
  \<^verbatim>\<open>Put\<close> calls on the new cache succeeds, and leaves as many entries as the minimum of
  \<open>m\<close> and the number of different keys put (for pairwise different keys: the number of
  calls).
\<close>

theorem cache_invariants:
  fixes c :: "'c CertLRUCache" and ps :: "(string \<times> int \<times> 'c option) list"
  assumes m: "1 \<le> m"
  shows "(reach m c \<longrightarrow>
           maxSize c = m \<and>
           card (dom (cache c)) = Len (lst c) \<and>
           int (Len (lst c)) \<le> m \<and>
           distinct (map snd (lst c)) \<and>
           set (map snd (lst c)) = VString ` dom (cache c) \<and>
           (\<forall>k entry. cache c k = Some entry \<longrightarrow>
              (listElement entry, VString k) \<in> set (lst c))) \<and>
         (\<exists>c'. puts ps (NewCertLRUCache m cleanupInterval) = Inr c' \<and>
            card (dom (cache c')) = min (nat m) (card (fst ` set ps)))"
proof (intro conjI impI)
  assume r: "reach m c"
  from reach_inv [OF _ r] m have i: "cache_inv c" and ms: "maxSize c = m" by simp_all
  then have b: "bijection c" and cap: "int (Len (lst c)) \<le> m" by (simp_all add: cache_inv_def)
  show "maxSize c = m" by (rule ms)
  show "card (dom (cache c)) = Len (lst c)" using bij_card [OF b] by (simp add: Len_def)
  show "int (Len (lst c)) \<le> m" by (rule cap)
  show "distinct (map snd (lst c))" by (rule bij_keys_distinct [OF b])
  show "set (map snd (lst c)) = VString ` dom (cache c)" using bij_dom [OF b] by simp
  show "\<forall>k entry. cache c k = Some entry \<longrightarrow> (listElement entry, VString k) \<in> set (lst c)"
    using bij_member [OF b] by blast
next
  let ?c0 = "NewCertLRUCache m cleanupInterval :: 'c CertLRUCache"
  have i: "cache_inv ?c0" using m by (simp add: inv_New)
  have ms: "maxSize ?c0 = m" by (simp add: NewCertLRUCache_def)
  have e: "dom (cache ?c0) = {}" by (simp add: NewCertLRUCache_def)
  from puts_count [OF i, of ps] m ms e
  show "\<exists>c'. puts ps ?c0 = Inr c' \<and> card (dom (cache c')) = min (nat m) (card (fst ` set ps))"
    by auto
qed

theorem cache_invariants_witness:
  "(1::int) \<le> 2 \<and> reach 2 example_cache \<and>
   maxSize example_cache = 2 \<and>
   card (dom (cache example_cache)) = Len (lst example_cache) \<and>
   int (Len (lst example_cache)) \<le> 2 \<and>
   distinct (map snd (lst example_cache)) \<and>
   set (map snd (lst example_cache)) = VString ` dom (cache example_cache) \<and>
   (\<exists>c'. puts [(''a'', 100, Some (10::nat)), (''b'', 200, Some 20), (''c'', 300, Some 30)]
           (NewCertLRUCache 2 1) = Inr c' \<and>
      card (dom (cache c')) = 2)"
proof -
  have h: "(1::int) \<le> 2" by simp
  have n: "min (nat 2) (card (fst ` set [(''a'', 100::int, Some (10::nat)), (''b'', 200, Some 20), (''c'', 300, Some 30)])) = 2"
    by simp
  from cache_invariants [OF h, of example_cache
      "[(''a'', 100, Some 10), (''b'', 200, Some 20), (''c'', 300, Some 30)]" 1]
  have "\<exists>c'. puts [(''a'', 100, Some (10::nat)), (''b'', 200, Some 20), (''c'', 300, Some 30)]
           (NewCertLRUCache 2 1) = Inr c' \<and> card (dom (cache c')) = 2"
    unfolding n by (rule conjunct2)
  with cache_invariants [OF h, of example_cache
      "[(''a'', 100, Some 10), (''b'', 200, Some 20), (''c'', 300, Some 30)]" 1]
    example_cache_reach h
  show ?thesis by blast
qed

text \<open>
  C2. In a state that satisfies the invariant, with capacity at least 1, a \<^verbatim>\<open>Put\<close> of a
  key that is not in the map succeeds. The new key's element becomes the front of the
  list, the new entry is in the map, and the length of the list stays within
  \<open>maxSize\<close>. When the list has \<open>maxSize\<close> or more elements, exactly one entry is
  evicted before the insertion: the victim is the key \<open>k\<close> of the back element, the list
  loses exactly its last element and the map exactly \<open>k\<close>, and the number of entries is
  the same as before. When there is room nothing is evicted.
\<close>

theorem Put_new_key:
  assumes i: "cache_inv c" and m: "1 \<le> maxSize c" and miss: "cache c host = None"
  shows "(\<exists>c'. Put host t v c = Inr c' \<and>
            hd (lst c') = (next_addr c, VString host) \<and>
            cache c' host = Some \<lparr>cert = v, expiresAt = t, listElement = next_addr c\<rparr> \<and>
            int (Len (lst c')) \<le> maxSize c' \<and> cache_inv c') \<and>
         (int (Len (lst c)) \<ge> maxSize c \<longrightarrow>
            (\<exists>a k c'. Back (lst c) = Some (a, VString k) \<and> k \<in> dom (cache c) \<and>
               Put host t v c = Inr c' \<and>
               lst c' = (next_addr c, VString host) # butlast (lst c) \<and>
               cache c' = ((cache c)(k := None))(host \<mapsto>
                 \<lparr>cert = v, expiresAt = t, listElement = next_addr c\<rparr>) \<and>
               cache c' k = None \<and> VString k \<notin> snd ` set (lst c') \<and>
               Len (lst c') = Len (lst c) \<and>
               card (dom (cache c')) = card (dom (cache c)))) \<and>
         (int (Len (lst c)) < maxSize c \<longrightarrow>
            (\<exists>c'. Put host t v c = Inr c' \<and>
               lst c' = (next_addr c, VString host) # lst c \<and>
               cache c' = (cache c)(host \<mapsto>
                 \<lparr>cert = v, expiresAt = t, listElement = next_addr c\<rparr>)))"
proof (intro conjI impI)
  from Put_new [OF i m miss, of t v]
  show "\<exists>c'. Put host t v c = Inr c' \<and>
            hd (lst c') = (next_addr c, VString host) \<and>
            cache c' host = Some \<lparr>cert = v, expiresAt = t, listElement = next_addr c\<rparr> \<and>
            int (Len (lst c')) \<le> maxSize c' \<and> cache_inv c'"
    by (auto simp: cache_inv_def)
next
  assume full: "maxSize c \<le> int (Len (lst c))"
  from Put_full [OF i m miss full, of t v]
  show "\<exists>a k c'. Back (lst c) = Some (a, VString k) \<and> k \<in> dom (cache c) \<and>
               Put host t v c = Inr c' \<and>
               lst c' = (next_addr c, VString host) # butlast (lst c) \<and>
               cache c' = ((cache c)(k := None))(host \<mapsto>
                 \<lparr>cert = v, expiresAt = t, listElement = next_addr c\<rparr>) \<and>
               cache c' k = None \<and> VString k \<notin> snd ` set (lst c') \<and>
               Len (lst c') = Len (lst c) \<and>
               card (dom (cache c')) = card (dom (cache c))"
    by (auto simp: domI)
next
  assume "int (Len (lst c)) < maxSize c"
  then show "\<exists>c'. Put host t v c = Inr c' \<and>
               lst c' = (next_addr c, VString host) # lst c \<and>
               cache c' = (cache c)(host \<mapsto>
                 \<lparr>cert = v, expiresAt = t, listElement = next_addr c\<rparr>)"
    using Put_room [OF miss, of t v] by (simp add: Len_def)
qed

theorem Put_new_key_witness:
  "cache_inv example_cache \<and> 1 \<le> maxSize example_cache \<and> cache example_cache ''c'' = None \<and>
   int (Len (lst example_cache)) \<ge> maxSize example_cache \<and>
   Back (lst example_cache) = Some (0, VString ''a'') \<and>
   (\<exists>c'. Put ''c'' 300 (Some 30) example_cache = Inr c' \<and>
      lst c' = [(2, VString ''c''), (1, VString ''b'')] \<and>
      cache c' ''a'' = None \<and>
      cache c' ''c'' = Some \<lparr>cert = Some 30, expiresAt = 300, listElement = 2\<rparr> \<and>
      Len (lst c') = 2)"
proof -
  have h: "1 \<le> maxSize example_cache" "cache example_cache ''c'' = None"
    "int (Len (lst example_cache)) \<ge> maxSize example_cache"
    by (simp_all add: example_cache_def Len_def)
  from Put_new_key [OF example_cache_inv h(1,2), of 300 "Some 30"] h(3)
  have "\<exists>a k c'. Back (lst example_cache) = Some (a, VString k) \<and> k \<in> dom (cache example_cache) \<and>
     Put ''c'' 300 (Some 30) example_cache = Inr c' \<and>
     lst c' = (next_addr example_cache, VString ''c'') # butlast (lst example_cache) \<and>
     cache c' = ((cache example_cache)(k := None))(''c'' \<mapsto>
        \<lparr>cert = Some 30, expiresAt = 300, listElement = next_addr example_cache\<rparr>) \<and>
     cache c' k = None \<and> VString k \<notin> snd ` set (lst c') \<and>
     Len (lst c') = Len (lst example_cache) \<and>
     card (dom (cache c')) = card (dom (cache example_cache))" by blast
  then obtain c' where "Put ''c'' 300 (Some 30) example_cache = Inr c'"
    "lst c' = (next_addr example_cache, VString ''c'') # butlast (lst example_cache)"
    "cache c' = ((cache example_cache)(''a'' := None))(''c'' \<mapsto>
        \<lparr>cert = Some 30, expiresAt = 300, listElement = next_addr example_cache\<rparr>)"
    "Len (lst c') = Len (lst example_cache)"
    by (auto simp: example_cache_Back)
  then have "Put ''c'' 300 (Some 30) example_cache = Inr c' \<and>
      lst c' = [(2, VString ''c''), (1, VString ''b'')] \<and>
      cache c' ''a'' = None \<and>
      cache c' ''c'' = Some \<lparr>cert = Some 30, expiresAt = 300, listElement = 2\<rparr> \<and>
      Len (lst c') = 2"
    by (simp add: example_cache_def Len_def)
  with h example_cache_inv example_cache_Back show ?thesis by blast
qed

text \<open>
  C8. In a state that satisfies the invariant, with capacity at least 1, \<^verbatim>\<open>Put\<close> never
  panics. Whenever it takes the eviction branch (the key is new and the list has
  \<open>maxSize\<close> or more elements) the list is not empty, \<^verbatim>\<open>Back\<close> returns an element, the
  value of that element is a string, and that string is a key of the map: neither the
  dereference of a \<^verbatim>\<open>nil\<close> element nor the type assertion can fail, and the deletion
  removes a key that is there.
\<close>

theorem Put_eviction_safe:
  assumes i: "cache_inv c" and m: "1 \<le> maxSize c"
  shows "(\<exists>c'. Put host t v c = Inr c') \<and>
         Put host t v c \<noteq> Inl NilDereference \<and> Put host t v c \<noteq> Inl TypeAssertion \<and>
         (cache c host = None \<and> int (Len (lst c)) \<ge> maxSize c \<longrightarrow>
            lst c \<noteq> [] \<and>
            (\<exists>a k. Back (lst c) = Some (a, VString k) \<and> k \<in> dom (cache c)))"
proof -
  from i have b: "bijection c" by (simp add: cache_inv_def)
  from Put_total [OF b m] obtain c' where put: "Put host t v c = Inr c'" by blast
  have "lst c \<noteq> [] \<and> (\<exists>a k. Back (lst c) = Some (a, VString k) \<and> k \<in> dom (cache c))"
    if full: "int (Len (lst c)) \<ge> maxSize c"
  proof -
    from full m have ne: "lst c \<noteq> []" by (auto simp: Len_def)
    from bij_Back [OF b ne] ne show ?thesis by blast
  qed
  with put show ?thesis by simp
qed

theorem Put_eviction_safe_witness:
  "cache_inv example_cache \<and> 1 \<le> maxSize example_cache \<and>
   cache example_cache ''c'' = None \<and> int (Len (lst example_cache)) \<ge> maxSize example_cache \<and>
   (\<exists>c'. Put ''c'' 300 (Some 30) example_cache = Inr c') \<and>
   lst example_cache \<noteq> [] \<and>
   (\<exists>a k. Back (lst example_cache) = Some (a, VString k) \<and> k \<in> dom (cache example_cache))"
proof -
  have h: "1 \<le> maxSize example_cache" "cache example_cache ''c'' = None"
    "int (Len (lst example_cache)) \<ge> maxSize example_cache"
    by (simp_all add: example_cache_def Len_def)
  from Put_eviction_safe [OF example_cache_inv h(1), of "''c''" 300 "Some 30"] h example_cache_inv
  show ?thesis by blast
qed

text \<open>
  C9. \<^verbatim>\<open>Put\<close> never looks at the clock. In a state that satisfies the invariant, with
  capacity at least 1, a \<^verbatim>\<open>Put\<close> of a new key with any expiry \<open>t\<close>, also one that is
  already over, inserts the entry at the front of the list; the entry takes a place
  (with room, the list grows by one; without, the key of the back element is evicted,
  whatever its own expiry, and the length stays the same); and the list and the keys
  of the map afterwards are those that any other expiry would give. A \<^verbatim>\<open>Get\<close> of the
  new key at a time \<open>now > t\<close> returns \<^verbatim>\<open>nil\<close> and removes the entry again.
\<close>

theorem Put_expired_still_inserts:
  fixes c :: "'c CertLRUCache"
  assumes i: "cache_inv c" and m: "1 \<le> maxSize c" and miss: "cache c host = None"
    and past: "t < now"
  shows "\<exists>c'. Put host t v c = Inr c' \<and>
           cache c' host = Some \<lparr>cert = v, expiresAt = t, listElement = next_addr c\<rparr> \<and>
           hd (lst c') = (next_addr c, VString host) \<and>
           Len (lst c') = (if int (Len (lst c)) \<ge> maxSize c then Len (lst c) else Suc (Len (lst c))) \<and>
           (int (Len (lst c)) \<ge> maxSize c \<longrightarrow>
              (\<exists>a k entry. Back (lst c) = Some (a, VString k) \<and> cache c k = Some entry \<and>
                 cache c' k = None \<and> VString k \<notin> snd ` set (lst c'))) \<and>
           (\<forall>t'. \<exists>c''. Put host t' v c = Inr c'' \<and> lst c'' = lst c' \<and>
                 dom (cache c'') = dom (cache c')) \<and>
           fst (Get now host c') = None \<and>
           cache (snd (Get now host c')) host = None"
proof -
  from i have b: "bijection c" by (simp add: cache_inv_def)
  from Put_new [OF i m miss, of t v] obtain c' where put: "Put host t v c = Inr c'"
    and hd: "hd (lst c') = (next_addr c, VString host)"
    and new: "cache c' host = Some \<lparr>cert = v, expiresAt = t, listElement = next_addr c\<rparr>"
    by blast
  have len: "Len (lst c') = (if int (Len (lst c)) \<ge> maxSize c then Len (lst c) else Suc (Len (lst c)))"
    using Put_length [OF b put] miss by (simp add: Len_def)
  have ev: "\<exists>a k entry. Back (lst c) = Some (a, VString k) \<and> cache c k = Some entry \<and>
      cache c' k = None \<and> VString k \<notin> snd ` set (lst c')"
    if full: "int (Len (lst c)) \<ge> maxSize c"
  proof -
    from Put_full [OF i m miss full, of t v] put show ?thesis by auto
  qed
  have indep: "\<exists>c''. Put host t' v c = Inr c'' \<and> lst c'' = lst c' \<and>
      dom (cache c'') = dom (cache c')" for t'
  proof (cases "int (length (lst c)) < maxSize c")
    case True
    from Put_room [OF miss True, of t v] Put_room [OF miss True, of t' v] put
    show ?thesis by auto
  next
    case False
    with m have ne: "lst c \<noteq> []" by auto
    from bij_Back [OF b ne] obtain a k where bk: "Back (lst c) = Some (a, VString k)" by blast
    from False have full: "maxSize c \<le> int (length (lst c))" by simp
    from Put_evict [OF b miss full bk, of t v] Put_evict [OF b miss full bk, of t' v] put
    show ?thesis by auto
  qed
  have get: "fst (Get now host c') = None \<and> cache (snd (Get now host c')) host = None"
    using new past by (simp add: Get_def)
  from put new hd len ev indep get show ?thesis by blast
qed


theorem Put_expired_still_inserts_witness:
  "cache_inv example_cache \<and> 1 \<le> maxSize example_cache \<and>
   cache example_cache ''c'' = None \<and> (10::int) < 50 \<and>
   int (Len (lst example_cache)) \<ge> maxSize example_cache \<and>
   (\<exists>e. cache example_cache ''a'' = Some e \<and> 50 \<le> expiresAt e) \<and>
   (\<exists>c'. Put ''c'' 10 (Some 30) example_cache = Inr c' \<and>
      cache c' ''c'' = Some \<lparr>cert = Some 30, expiresAt = 10, listElement = 2\<rparr> \<and>
      hd (lst c') = (2, VString ''c'') \<and>
      Len (lst c') = 2 \<and>
      cache c' ''a'' = None \<and>
      fst (Get 50 ''c'' c') = None \<and>
      cache (snd (Get 50 ''c'' c')) ''c'' = None)"
proof -
  have h: "1 \<le> maxSize example_cache" "cache example_cache ''c'' = None" "(10::int) < 50"
    "int (Len (lst example_cache)) \<ge> maxSize example_cache"
    by (simp_all add: example_cache_def Len_def)
  have live: "\<exists>e. cache example_cache ''a'' = Some e \<and> 50 \<le> expiresAt e"
    by (simp add: example_cache_def)
  from Put_expired_still_inserts [OF example_cache_inv h(1,2,3), of "Some 30"] h(4)
  obtain c' where c': "Put ''c'' 10 (Some 30) example_cache = Inr c'"
    "cache c' ''c'' = Some \<lparr>cert = Some 30, expiresAt = 10, listElement = next_addr example_cache\<rparr>"
    "hd (lst c') = (next_addr example_cache, VString ''c'')"
    "Len (lst c') = Len (lst example_cache)"
    "\<exists>a k entry. Back (lst example_cache) = Some (a, VString k) \<and>
       cache example_cache k = Some entry \<and> cache c' k = None \<and> VString k \<notin> snd ` set (lst c')"
    "fst (Get 50 ''c'' c') = None" "cache (snd (Get 50 ''c'' c')) ''c'' = None"
    by auto
  from c'(5) have "cache c' ''a'' = None" by (auto simp: example_cache_Back)
  moreover have "next_addr example_cache = 2" "Len (lst example_cache) = 2"
    by (simp_all add: example_cache_def Len_def)
  ultimately show ?thesis using c' h live example_cache_inv by auto
qed

text \<open>
  C3. When the key is in the map and \<open>now > expiresAt\<close> of its entry, \<^verbatim>\<open>Get\<close> returns
  \<^verbatim>\<open>nil\<close>, deletes the key from the map and leaves every other key as it was, and
  removes the entry's element from the list. In a state where map and list are linked
  (the invariant), the list loses exactly the element that holds the key, the other
  elements keep their order, the length of the list and the number of keys both go down
  by exactly one, and the invariant holds afterwards.
\<close>

theorem Get_expired_removes:
  assumes hit: "cache c host = Some entry" and late: "now > expiresAt entry"
  shows "fst (Get now host c) = None \<and>
         cache (snd (Get now host c)) = (cache c)(host := None) \<and>
         lst (snd (Get now host c)) = Remove (listElement entry) (lst c) \<and>
         maxSize (snd (Get now host c)) = maxSize c \<and>
         (bijection c \<longrightarrow>
            lst (snd (Get now host c)) = filter (\<lambda>e. snd e \<noteq> VString host) (lst c) \<and>
            (listElement entry, VString host) \<in> set (lst c) \<and>
            set (lst (snd (Get now host c))) = set (lst c) - {(listElement entry, VString host)} \<and>
            Suc (Len (lst (snd (Get now host c)))) = Len (lst c) \<and>
            Suc (card (dom (cache (snd (Get now host c))))) = card (dom (cache c)) \<and>
            bijection (snd (Get now host c)))"
proof -
  let ?c' = "snd (Get now host c)"
  have g: "Get now host c = (None, c\<lparr>lst := Remove (listElement entry) (lst c),
      cache := (cache c)(host := None)\<rparr>)"
    using Get_expired [OF hit] late by simp
  have "lst ?c' = filter (\<lambda>e. snd e \<noteq> VString host) (lst c) \<and>
        (listElement entry, VString host) \<in> set (lst c) \<and>
        set (lst ?c') = set (lst c) - {(listElement entry, VString host)} \<and>
        Suc (Len (lst ?c')) = Len (lst c) \<and>
        Suc (card (dom (cache ?c'))) = card (dom (cache c)) \<and>
        bijection ?c'" if b: "bijection c"
  proof -
    have b': "bijection ?c'" using bij_Get [OF b] .
    have mem: "(listElement entry, VString host) \<in> set (lst c)" using bij_member [OF b hit] .
    have d: "distinct (map fst (lst c))" using bij_distinct [OF b] .
    have len: "Suc (Len (lst ?c')) = Len (lst c)"
      using length_Remove_member [OF d mem] g by (simp add: Len_def)
    with bij_card [OF b] bij_card [OF b']
    have card: "Suc (card (dom (cache ?c'))) = card (dom (cache c))" by (simp add: Len_def)
    have "lst ?c' = filter (\<lambda>e. snd e \<noteq> VString host) (lst c)"
      using Remove_key [OF b hit] g by simp
    moreover have "set (lst ?c') = set (lst c) - {(listElement entry, VString host)}"
      using set_Remove_member [OF d mem] g by simp
    moreover note mem len card b'
    ultimately show ?thesis by blast
  qed
  moreover have "fst (Get now host c) = None" "cache ?c' = (cache c)(host := None)"
    "lst ?c' = Remove (listElement entry) (lst c)" "maxSize ?c' = maxSize c"
    using g by simp_all
  ultimately show ?thesis by blast
qed

theorem Get_expired_removes_witness:
  "cache example_cache ''a'' = Some \<lparr>cert = Some 10, expiresAt = 100, listElement = 0\<rparr> \<and>
   (150::int) > expiresAt \<lparr>cert = Some (10::nat), expiresAt = 100, listElement = 0\<rparr> \<and>
   bijection example_cache \<and>
   fst (Get 150 ''a'' example_cache) = None \<and>
   cache (snd (Get 150 ''a'' example_cache)) = (cache example_cache)(''a'' := None) \<and>
   lst (snd (Get 150 ''a'' example_cache)) = [(1, VString ''b'')] \<and>
   Suc (Len (lst (snd (Get 150 ''a'' example_cache)))) = Len (lst example_cache) \<and>
   Suc (card (dom (cache (snd (Get 150 ''a'' example_cache))))) = card (dom (cache example_cache))"
proof -
  have h: "cache example_cache ''a'' = Some \<lparr>cert = Some 10, expiresAt = 100, listElement = 0\<rparr>"
    "(150::int) > expiresAt \<lparr>cert = Some (10::nat), expiresAt = 100, listElement = 0\<rparr>"
    by (simp_all add: example_cache_def)
  have f: "filter (\<lambda>e. snd e \<noteq> VString ''a'') (lst example_cache) = [(1, VString ''b'')]"
    by (simp add: example_cache_def)
  note t = Get_expired_removes [OF h]
  from t example_cache_bij
  have "lst (snd (Get 150 ''a'' example_cache)) =
    filter (\<lambda>e. snd e \<noteq> VString ''a'') (lst example_cache)" by blast
  then have "lst (snd (Get 150 ''a'' example_cache)) = [(1, VString ''b'')]"
    by (simp only: f)
  with t h example_cache_bij show ?thesis by blast
qed

text \<open>
  C4. \<^verbatim>\<open>Get\<close> of a key that is not in the map returns \<^verbatim>\<open>nil\<close> and changes nothing.
  \<^verbatim>\<open>Get\<close> of a key that is in the map, at a time \<open>now \<le> expiresAt\<close> of its entry,
  returns the stored certificate, leaves the map as it was and moves the entry's element
  to the front of the list. In a state where map and list are linked (the invariant),
  the list afterwards is the element that holds the key, followed by the other elements
  in their old order.
\<close>

theorem Get_miss_and_hit:
  "(cache c host = None \<longrightarrow> Get now host c = (None, c)) \<and>
   (cache c host = Some entry \<and> now \<le> expiresAt entry \<longrightarrow>
      fst (Get now host c) = cert entry \<and>
      cache (snd (Get now host c)) = cache c \<and>
      maxSize (snd (Get now host c)) = maxSize c \<and>
      lst (snd (Get now host c)) = MoveToFront (listElement entry) (lst c) \<and>
      (bijection c \<longrightarrow>
         lst (snd (Get now host c)) =
           (listElement entry, VString host) # filter (\<lambda>e. snd e \<noteq> VString host) (lst c) \<and>
         set (lst (snd (Get now host c))) = set (lst c) \<and>
         Len (lst (snd (Get now host c))) = Len (lst c) \<and>
         bijection (snd (Get now host c))))"
proof (intro conjI impI)
  show "Get now host c = (None, c)" if "cache c host = None"
    using that by (simp add: Get_def)
next
  assume "cache c host = Some entry \<and> now \<le> expiresAt entry"
  then have hit: "cache c host = Some entry" and live: "now \<le> expiresAt entry" by simp_all
  note g = Get_live [OF hit live]
  show "fst (Get now host c) = cert entry" "cache (snd (Get now host c)) = cache c"
    "maxSize (snd (Get now host c)) = maxSize c"
    "lst (snd (Get now host c)) = MoveToFront (listElement entry) (lst c)"
    by (simp_all add: g)
  assume b: "bijection c"
  have d: "distinct (map fst (lst c))" using bij_distinct [OF b] .
  from MoveToFront_member [OF d bij_member [OF b hit]] Remove_key [OF b hit]
  show "lst (snd (Get now host c)) =
      (listElement entry, VString host) # filter (\<lambda>e. snd e \<noteq> VString host) (lst c)"
    by (simp add: g)
  show "set (lst (snd (Get now host c))) = set (lst c)"
    using MoveToFront_props(1) [OF d] by (simp add: g)
  show "Len (lst (snd (Get now host c))) = Len (lst c)"
    using MoveToFront_props(3) [OF d] by (simp add: g Len_def)
  show "bijection (snd (Get now host c))" using bij_Get [OF b] .
qed

theorem Get_miss_and_hit_witness:
  "cache example_cache ''z'' = None \<and> Get 50 ''z'' example_cache = (None, example_cache) \<and>
   cache example_cache ''a'' = Some \<lparr>cert = Some 10, expiresAt = 100, listElement = 0\<rparr> \<and>
   (50::int) \<le> expiresAt \<lparr>cert = Some (10::nat), expiresAt = 100, listElement = 0\<rparr> \<and>
   bijection example_cache \<and>
   fst (Get 50 ''a'' example_cache) = Some 10 \<and>
   cache (snd (Get 50 ''a'' example_cache)) = cache example_cache \<and>
   lst (snd (Get 50 ''a'' example_cache)) = [(0, VString ''a''), (1, VString ''b'')]"
proof -
  have h: "cache example_cache ''z'' = None"
    "cache example_cache ''a'' = Some \<lparr>cert = Some 10, expiresAt = 100, listElement = 0\<rparr>"
    "(50::int) \<le> expiresAt \<lparr>cert = Some (10::nat), expiresAt = 100, listElement = 0\<rparr>"
    by (simp_all add: example_cache_def)
  have f: "filter (\<lambda>e. snd e \<noteq> VString ''a'') (lst example_cache) = [(1, VString ''b'')]"
    by (simp add: example_cache_def)
  from Get_miss_and_hit [of example_cache "''z''" 50] h(1)
  have 1: "Get 50 ''z'' example_cache = (None, example_cache)" by blast
  note t = Get_miss_and_hit [of example_cache "''a''" 50
      "\<lparr>cert = Some 10, expiresAt = 100, listElement = 0\<rparr>"]
  from t h(2,3) example_cache_bij
  have "lst (snd (Get 50 ''a'' example_cache)) =
    (listElement \<lparr>cert = Some (10::nat), expiresAt = 100, listElement = 0\<rparr>, VString ''a'') #
      filter (\<lambda>e. snd e \<noteq> VString ''a'') (lst example_cache)" by blast
  then have l: "lst (snd (Get 50 ''a'' example_cache)) = [(0, VString ''a''), (1, VString ''b'')]"
    by (simp add: f)
  from t h(2,3)
  have "fst (Get 50 ''a'' example_cache) = cert \<lparr>cert = Some (10::nat), expiresAt = 100, listElement = 0\<rparr>"
    "cache (snd (Get 50 ''a'' example_cache)) = cache example_cache" by blast+
  then have 2: "fst (Get 50 ''a'' example_cache) = Some 10"
    "cache (snd (Get 50 ''a'' example_cache)) = cache example_cache" by simp_all
  from 1 2 l h example_cache_bij show ?thesis by blast
qed

text \<open>
  C5. \<^verbatim>\<open>Put\<close> of a key that is already in the map succeeds in every state, whatever the
  length of the list and the capacity are (no capacity check) and whatever the expiry of
  the old entry is (no clock is read): it replaces the certificate and the expiry of the
  entry, keeps the entry's element, moves that element to the front and changes no other
  key. With map and list linked (the invariant), the key's element is the front of the
  list afterwards, the other elements keep their order, nothing is evicted and the counts
  are unchanged. Hence, from a state that satisfies the invariant with capacity at least
  1, after \<^verbatim>\<open>Put(h, t1, v1)\<close> and \<^verbatim>\<open>Put(h, t2, v2)\<close> the key \<open>h\<close> occurs exactly once in
  the list, at the front, its entry holds \<open>v2\<close> and \<open>t2\<close>, the second call did not change
  the length, and a \<^verbatim>\<open>Get\<close> at a time \<open>now \<le> t2\<close> returns \<open>v2\<close>.
\<close>

theorem Put_existing_key:
  fixes c :: "'c CertLRUCache"
  shows
  "(cache c host = Some e \<longrightarrow>
      (\<exists>c'. Put host t v c = Inr c' \<and>
         cache c' = (cache c)(host \<mapsto> \<lparr>cert = v, expiresAt = t, listElement = listElement e\<rparr>) \<and>
         lst c' = MoveToFront (listElement e) (lst c) \<and>
         dom (cache c') = dom (cache c) \<and>
         maxSize c' = maxSize c \<and> next_addr c' = next_addr c \<and>
         (bijection c \<longrightarrow>
            lst c' = (listElement e, VString host) # filter (\<lambda>x. snd x \<noteq> VString host) (lst c) \<and>
            set (lst c') = set (lst c) \<and>
            Len (lst c') = Len (lst c) \<and>
            card (dom (cache c')) = card (dom (cache c)) \<and>
            bijection c'))) \<and>
   (cache_inv c \<and> 1 \<le> maxSize c \<longrightarrow>
      (\<exists>c1 c2. Put host t1 v1 c = Inr c1 \<and> Put host t2 v2 c1 = Inr c2 \<and>
         count_list (map snd (lst c2)) (VString host) = 1 \<and>
         snd (hd (lst c2)) = VString host \<and>
         (\<exists>a. cache c2 host = Some \<lparr>cert = v2, expiresAt = t2, listElement = a\<rparr>) \<and>
         Len (lst c2) = Len (lst c1) \<and>
         (now \<le> t2 \<longrightarrow> fst (Get now host c2) = v2)))"
proof (intro conjI impI)
  assume hit: "cache c host = Some e"
  let ?c' = "c\<lparr>lst := MoveToFront (listElement e) (lst c),
     cache := (cache c)(host \<mapsto> \<lparr>cert = v, expiresAt = t, listElement = listElement e\<rparr>)\<rparr>"
  have put: "Put host t v c = Inr ?c'" using Put_present [OF hit] .
  have dom: "dom (cache ?c') = dom (cache c)" using hit by auto
  have linked: "lst ?c' = (listElement e, VString host) # filter (\<lambda>x. snd x \<noteq> VString host) (lst c) \<and>
            set (lst ?c') = set (lst c) \<and> Len (lst ?c') = Len (lst c) \<and>
            card (dom (cache ?c')) = card (dom (cache c)) \<and> bijection ?c'"
    if b: "bijection c"
  proof -
    have d: "distinct (map fst (lst c))" using bij_distinct [OF b] .
    have "lst ?c' = (listElement e, VString host) # filter (\<lambda>x. snd x \<noteq> VString host) (lst c)"
      using Put_present_front [OF b hit] by simp
    moreover have "set (lst ?c') = set (lst c)" using MoveToFront_props(1) [OF d] by simp
    moreover have "Len (lst ?c') = Len (lst c)"
      using MoveToFront_props(3) [OF d] by (simp add: Len_def)
    moreover have "card (dom (cache ?c')) = card (dom (cache c))" using dom by simp
    moreover have "bijection ?c'" using bij_update [OF b hit] .
    ultimately show ?thesis by blast
  qed
  show "\<exists>c'. Put host t v c = Inr c' \<and>
         cache c' = (cache c)(host \<mapsto> \<lparr>cert = v, expiresAt = t, listElement = listElement e\<rparr>) \<and>
         lst c' = MoveToFront (listElement e) (lst c) \<and>
         dom (cache c') = dom (cache c) \<and>
         maxSize c' = maxSize c \<and> next_addr c' = next_addr c \<and>
         (bijection c \<longrightarrow>
            lst c' = (listElement e, VString host) # filter (\<lambda>x. snd x \<noteq> VString host) (lst c) \<and>
            set (lst c') = set (lst c) \<and>
            Len (lst c') = Len (lst c) \<and>
            card (dom (cache c')) = card (dom (cache c)) \<and>
            bijection c')"
  proof (intro exI [of _ ?c'] conjI impI)
    show "Put host t v c = Inr ?c'" by (rule put)
    show "dom (cache ?c') = dom (cache c)" by (rule dom)
  qed (simp, simp, simp, simp, (use linked in blast)+)
next
  assume "cache_inv c \<and> 1 \<le> maxSize c"
  then have i: "cache_inv c" and m: "1 \<le> maxSize c" by simp_all
  from i have b: "bijection c" by (simp add: cache_inv_def)
  from Put_total [OF b m] obtain c1 where put1: "Put host t1 v1 c = Inr c1" by blast
  have b1: "bijection c1" using bij_Put [OF b put1] .
  from Put_stores [OF put1] obtain a where
    hit1: "cache c1 host = Some \<lparr>cert = v1, expiresAt = t1, listElement = a\<rparr>" by blast
  let ?c2 = "c1\<lparr>lst := MoveToFront a (lst c1),
     cache := (cache c1)(host \<mapsto> \<lparr>cert = v2, expiresAt = t2, listElement = a\<rparr>)\<rparr>"
  have put2: "Put host t2 v2 c1 = Inr ?c2" using Put_present [OF hit1, of t2 v2] by simp
  have b2: "bijection ?c2" using bij_Put [OF b1 put2] .
  have l2: "lst ?c2 = (a, VString host) # filter (\<lambda>x. snd x \<noteq> VString host) (lst c1)"
    using Put_present_front [OF b1 hit1] by simp
  then have "VString host \<in> set (map snd (lst ?c2))" by simp
  with bij_keys_distinct [OF b2]
  have once: "count_list (map snd (lst ?c2)) (VString host) = 1" by (rule count_list_distinct)
  have front: "snd (hd (lst ?c2)) = VString host" using l2 by simp
  have len: "Len (lst ?c2) = Len (lst c1)"
    using MoveToFront_props(3) [OF bij_distinct [OF b1]] by (simp add: Len_def)
  have stored: "cache ?c2 host = Some \<lparr>cert = v2, expiresAt = t2, listElement = a\<rparr>" by simp
  have get: "fst (Get now host ?c2) = v2" if "now \<le> t2"
    using Get_live [OF stored] that by simp
  show "\<exists>c1 c2. Put host t1 v1 c = Inr c1 \<and> Put host t2 v2 c1 = Inr c2 \<and>
         count_list (map snd (lst c2)) (VString host) = 1 \<and>
         snd (hd (lst c2)) = VString host \<and>
         (\<exists>a. cache c2 host = Some \<lparr>cert = v2, expiresAt = t2, listElement = a\<rparr>) \<and>
         Len (lst c2) = Len (lst c1) \<and>
         (now \<le> t2 \<longrightarrow> fst (Get now host c2) = v2)"
    apply (rule exI [of _ c1], rule exI [of _ ?c2])
    using put1 put2 once front len get stored by blast
qed


theorem Put_existing_key_witness:
  "cache example_cache ''a'' = Some \<lparr>cert = Some 10, expiresAt = 100, listElement = 0\<rparr> \<and>
   bijection example_cache \<and> cache_inv example_cache \<and> 1 \<le> maxSize example_cache \<and>
   (350::int) \<le> 400 \<and>
   (\<exists>c'. Put ''a'' 500 (Some 11) example_cache = Inr c' \<and>
      cache c' ''a'' = Some \<lparr>cert = Some 11, expiresAt = 500, listElement = 0\<rparr> \<and>
      lst c' = [(0, VString ''a''), (1, VString ''b'')] \<and>
      dom (cache c') = dom (cache example_cache)) \<and>
   (\<exists>c1 c2. Put ''a'' 300 (Some 12) example_cache = Inr c1 \<and>
      Put ''a'' 400 (Some 13) c1 = Inr c2 \<and>
      count_list (map snd (lst c2)) (VString ''a'') = 1 \<and>
      snd (hd (lst c2)) = VString ''a'' \<and>
      Len (lst c2) = Len (lst c1) \<and>
      fst (Get 350 ''a'' c2) = Some 13)"
proof -
  let ?e = "\<lparr>cert = Some (10::nat), expiresAt = 100, listElement = 0\<rparr>"
  have h: "cache example_cache ''a'' = Some ?e" "1 \<le> maxSize example_cache" "(350::int) \<le> 400"
    by (simp_all add: example_cache_def)
  have f: "filter (\<lambda>x. snd x \<noteq> VString ''a'') (lst example_cache) = [(1, VString ''b'')]"
    by (simp add: example_cache_def)
  note t = Put_existing_key [of example_cache "''a''" ?e 500 "Some 11" 300 "Some 12" 400 "Some 13" 350]
  from t h(1) example_cache_bij obtain c' where c':
    "Put ''a'' 500 (Some 11) example_cache = Inr c'"
    "cache c' = (cache example_cache)(''a'' \<mapsto> \<lparr>cert = Some 11, expiresAt = 500, listElement = listElement ?e\<rparr>)"
    "lst c' = (listElement ?e, VString ''a'') # filter (\<lambda>x. snd x \<noteq> VString ''a'') (lst example_cache)"
    "dom (cache c') = dom (cache example_cache)"
    by blast
  from c'(2,3) have "cache c' ''a'' = Some \<lparr>cert = Some 11, expiresAt = 500, listElement = 0\<rparr>"
    "lst c' = [(0, VString ''a''), (1, VString ''b'')]"
    by (simp_all add: f)
  with c'(1,4) have 1: "\<exists>c'. Put ''a'' 500 (Some 11) example_cache = Inr c' \<and>
      cache c' ''a'' = Some \<lparr>cert = Some 11, expiresAt = 500, listElement = 0\<rparr> \<and>
      lst c' = [(0, VString ''a''), (1, VString ''b'')] \<and>
      dom (cache c') = dom (cache example_cache)" by blast
  from t example_cache_inv h(2,3) have 2: "\<exists>c1 c2. Put ''a'' 300 (Some 12) example_cache = Inr c1 \<and>
      Put ''a'' 400 (Some 13) c1 = Inr c2 \<and>
      count_list (map snd (lst c2)) (VString ''a'') = 1 \<and>
      snd (hd (lst c2)) = VString ''a'' \<and>
      Len (lst c2) = Len (lst c1) \<and>
      fst (Get 350 ''a'' c2) = Some 13" by blast
  from 1 2 h example_cache_bij example_cache_inv show ?thesis by blast
qed

text \<open>
  C7. \<^verbatim>\<open>Purge\<close> empties the map and the list of every state, so a \<^verbatim>\<open>Get\<close> of any key
  right after it returns \<^verbatim>\<open>nil\<close> and changes nothing. A second \<^verbatim>\<open>Purge\<close> changes
  nothing more, and on a state whose map and list are already empty (the new cache, for
  one) \<^verbatim>\<open>Purge\<close> changes nothing at all.
\<close>

theorem Purge_empties:
  "cache (Purge c) = Map.empty \<and> lst (Purge c) = [] \<and> Len (lst (Purge c)) = 0 \<and>
   maxSize (Purge c) = maxSize c \<and>
   Get now host (Purge c) = (None, Purge c) \<and>
   Purge (Purge c) = Purge c \<and>
   (cache c = Map.empty \<and> lst c = [] \<longrightarrow> Purge c = c) \<and>
   Purge (NewCertLRUCache m cleanupInterval) = NewCertLRUCache m cleanupInterval"
  by (simp add: Purge_def list_New_def Len_def Get_def NewCertLRUCache_def)

theorem Purge_empties_witness:
  "cache (Purge example_cache) = Map.empty \<and> lst (Purge example_cache) = [] \<and>
   cache (Purge example_cache) ''a'' = None \<and>
   fst (Get 50 ''a'' (Purge example_cache)) = None \<and>
   cache (Purge (Purge example_cache)) = Map.empty \<and> lst (Purge (Purge example_cache)) = [] \<and>
   Purge (Purge (Purge example_cache)) = Purge (Purge example_cache)"
proof -
  note t = Purge_empties [of example_cache 50 "''a''"]
  note u = Purge_empties [of "Purge example_cache" 50 "''a''"]
  from t have e: "cache (Purge example_cache) = Map.empty" "lst (Purge example_cache) = []"
    by blast+
  from t have g: "Get 50 ''a'' (Purge example_cache) = (None, Purge example_cache)" by blast
  from u e have p: "Purge (Purge example_cache) = Purge example_cache" by blast
  from e g p show ?thesis by simp
qed

text \<open>
  C6. Take a tick of the sweeper in a state where map and list are linked (the
  invariant), let it visit the keys of the map in any order \<open>ks\<close>, and let every clock
  reading of the tick be \<open>now\<close>. Afterwards the map has lost exactly the keys whose entry
  has \<open>now > expiresAt\<close> and holds every other key with its old entry; the list has lost
  exactly the elements that hold those keys and keeps the others in their order; nothing
  else of the state changes; and the invariant holds again. When no entry is expired, and
  so when the cache is empty, the tick changes nothing.
\<close>

theorem sweepTick_removes_expired:
  assumes b: "bijection c" and all: "set ks = dom (cache c)"
  shows "cache (sweepTick (map (\<lambda>k. (k, now)) ks) c) =
           (\<lambda>k. if expired now c k then None else cache c k) \<and>
         lst (sweepTick (map (\<lambda>k. (k, now)) ks) c) = filter (survives now c) (lst c) \<and>
         maxSize (sweepTick (map (\<lambda>k. (k, now)) ks) c) = maxSize c \<and>
         next_addr (sweepTick (map (\<lambda>k. (k, now)) ks) c) = next_addr c \<and>
         dom (cache (sweepTick (map (\<lambda>k. (k, now)) ks) c)) =
           {k \<in> dom (cache c). \<not> expired now c k} \<and>
         bijection (sweepTick (map (\<lambda>k. (k, now)) ks) c) \<and>
         (cache_inv c \<longrightarrow> cache_inv (sweepTick (map (\<lambda>k. (k, now)) ks) c)) \<and>
         ((\<forall>k. \<not> expired now c k) \<longrightarrow> sweepTick (map (\<lambda>k. (k, now)) ks) c = c) \<and>
         (cache c = Map.empty \<longrightarrow> sweepTick (map (\<lambda>k. (k, now)) ks) c = c)"
proof -
  let ?c' = "sweepTick (map (\<lambda>k. (k, now)) ks) c"
  note eq = sweepTick_all [OF b all, of now]
  have m: "cache ?c' = (\<lambda>k. if expired now c k then None else cache c k)"
    and l: "lst ?c' = filter (survives now c) (lst c)"
    and ms: "maxSize ?c' = maxSize c" and na: "next_addr ?c' = next_addr c"
    by (simp_all add: eq)
  have d: "dom (cache ?c') = {k \<in> dom (cache c). \<not> expired now c k}"
    unfolding m by (auto simp: expired_def split: if_splits)
  have b': "bijection ?c'" using bij_sweepTick [OF b] .
  have i': "cache_inv ?c'" if "cache_inv c" using inv_sweepTick [OF that] .
  have noop: "?c' = c" if none: "\<forall>k. \<not> expired now c k"
  proof -
    have "filter (survives now c) (lst c) = lst c"
      using none by (auto simp: survives_def split: anyval.splits)
    moreover have "(\<lambda>k. if expired now c k then None else cache c k) = cache c"
      using none by (intro ext) simp
    ultimately show ?thesis by (simp add: eq)
  qed
  have empty: "?c' = c" if "cache c = Map.empty"
  proof -
    from that have "\<forall>k. \<not> expired now c k" by (simp add: expired_def)
    then show ?thesis by (rule noop)
  qed
  from m l ms na d b' i' noop empty show ?thesis by blast
qed

theorem sweepTick_removes_expired_witness:
  "bijection example_cache \<and> set [''b'', ''a''] = dom (cache example_cache) \<and>
   expired 150 example_cache ''a'' \<and>
   lst (sweepTick (map (\<lambda>k. (k, 150)) [''b'', ''a'']) example_cache) = [(1, VString ''b'')] \<and>
   cache (sweepTick (map (\<lambda>k. (k, 150)) [''b'', ''a'']) example_cache) ''a'' = None \<and>
   cache (sweepTick (map (\<lambda>k. (k, 150)) [''b'', ''a'']) example_cache) ''b'' =
     Some \<lparr>cert = Some 20, expiresAt = 200, listElement = 1\<rparr> \<and>
   (\<forall>k. \<not> expired 50 example_cache k) \<and>
   sweepTick (map (\<lambda>k. (k, 50)) [''b'', ''a'']) example_cache = example_cache"
proof -
  have h: "set [''b'', ''a''] = dom (cache example_cache)"
    by (auto simp: example_cache_def)
  have x: "expired 150 example_cache ''a''" "\<not> expired 150 example_cache ''b''"
    by (simp_all add: expired_def example_cache_def)
  have n: "\<forall>k. \<not> expired 50 example_cache k"
    by (simp add: expired_def example_cache_def)
  have f: "filter (survives 150 example_cache) (lst example_cache) = [(1, VString ''b'')]"
    using x by (simp add: survives_def example_cache_def)
  note t = sweepTick_removes_expired [OF example_cache_bij h, of 150]
  note u = sweepTick_removes_expired [OF example_cache_bij h, of 50]
  from t have "lst (sweepTick (map (\<lambda>k. (k, 150)) [''b'', ''a'']) example_cache) =
    filter (survives 150 example_cache) (lst example_cache)" by blast
  then have 1: "lst (sweepTick (map (\<lambda>k. (k, 150)) [''b'', ''a'']) example_cache) = [(1, VString ''b'')]"
    by (simp only: f)
  from t have "cache (sweepTick (map (\<lambda>k. (k, 150)) [''b'', ''a'']) example_cache) =
    (\<lambda>k. if expired 150 example_cache k then None else cache example_cache k)" by blast
  then have 2: "cache (sweepTick (map (\<lambda>k. (k, 150)) [''b'', ''a'']) example_cache) ''a'' = None"
    "cache (sweepTick (map (\<lambda>k. (k, 150)) [''b'', ''a'']) example_cache) ''b'' =
       Some \<lparr>cert = Some 20, expiresAt = 200, listElement = 1\<rparr>"
    using x by (simp_all add: example_cache_def)
  from u n have 3: "sweepTick (map (\<lambda>k. (k, 50)) [''b'', ''a'']) example_cache = example_cache"
    by blast
  from 1 2 3 h x n example_cache_bij show ?thesis by blast
qed

end
